theory Spec2Isabelle
  imports Main "HOL-Library.Word"
begin

unbundle bit_operations_syntax

section \<open>The event primitive of util/event.c\<close>

text \<open>
  \<^verbatim>\<open>util/event.c\<close> implements a resettable event on one shared word. The file is compiled in
  one of two ways: with \<^verbatim>\<open>HAVE_FUTEX\<close> (the word is slept on with a wait-on-address call) or
  without it (a mutex and a condition variable). The flag is the first argument \<open>hf\<close> of
  every function below.

  The five functions run concurrently on one \<^verbatim>\<open>QemuEvent\<close>, so each is modelled statement by
  statement: a program counter names the next statement of the call, and the function of
  the same name as the C function executes that one statement on the shared event. Every
  access to shared memory is one step. Memory barriers are not modelled: steps are
  sequentially consistent.
\<close>

subsection \<open>Data\<close>

type_synonym u32 = "32 word"

text \<open>Lines 21 to 23. \<^verbatim>\<open>EV_BUSY\<close> is \<^verbatim>\<open>-1\<close>, stored in an unsigned word.\<close>

definition EV_SET :: u32 where "EV_SET = 0"
definition EV_FREE :: u32 where "EV_FREE = 1"
definition EV_BUSY :: u32 where "EV_BUSY = - 1"

text \<open>
  Modelled from the spec: the pthread objects that the fallback backend owns
  (\<^verbatim>\<open>pthread_mutex_t\<close>, \<^verbatim>\<open>pthread_cond_t\<close> and their init and destroy calls are not in
  the source files). Only the life cycle of an object is kept; who holds the mutex is not
  tracked, and a step that locks it is taken when the mutex is granted.
\<close>

datatype pthread_obj = Unconstructed | Constructed | Destroyed

definition pthread_mutex_init :: "pthread_obj \<Rightarrow> pthread_obj" where
  "pthread_mutex_init m = Constructed"

definition pthread_cond_init :: "pthread_obj \<Rightarrow> pthread_obj" where
  "pthread_cond_init c = Constructed"

definition pthread_mutex_destroy :: "pthread_obj \<Rightarrow> pthread_obj" where
  "pthread_mutex_destroy m = Destroyed"

definition pthread_cond_destroy :: "pthread_obj \<Rightarrow> pthread_obj" where
  "pthread_cond_destroy c = Destroyed"

text \<open>
  Modelled from the spec: \<^verbatim>\<open>struct QemuEvent\<close> is declared in a header that is not among the
  source files. The fields are the ones \<^verbatim>\<open>event.c\<close> uses: \<^verbatim>\<open>lock\<close> and \<^verbatim>\<open>cond\<close> (touched
  only without \<^verbatim>\<open>HAVE_FUTEX\<close>), the state word \<^verbatim>\<open>value\<close> and the flag \<^verbatim>\<open>initialized\<close>.
\<close>

record QemuEvent =
  lock :: pthread_obj
  cond :: pthread_obj
  ev_value :: u32
  initialized :: bool

text \<open>
  Modelled from the spec: the atomic macros of \<^verbatim>\<open>qemu/atomic.h\<close>, on the content of the
  word. An exchange and a compare-and-swap return the old content and the new content.
\<close>

definition qatomic_read :: "u32 \<Rightarrow> u32" where
  "qatomic_read mem = mem"

definition qatomic_load_acquire :: "u32 \<Rightarrow> u32" where
  "qatomic_load_acquire mem = mem"

definition qatomic_set :: "u32 \<Rightarrow> u32 \<Rightarrow> u32" where
  "qatomic_set mem v = v"

definition qatomic_xchg :: "u32 \<Rightarrow> u32 \<Rightarrow> u32 \<times> u32" where
  "qatomic_xchg mem v = (mem, v)"

definition qatomic_or :: "u32 \<Rightarrow> u32 \<Rightarrow> u32" where
  "qatomic_or mem v = mem OR v"

definition qatomic_cmpxchg :: "u32 \<Rightarrow> u32 \<Rightarrow> u32 \<Rightarrow> u32 \<times> u32" where
  "qatomic_cmpxchg mem old new = (mem, if mem = old then new else mem)"

text \<open>
  Modelled from the spec: \<^verbatim>\<open>qemu_futex_wait(ev, val)\<close>, which is not in the source files. It
  is the wait-on-address call expecting the word to equal \<open>val\<close>: it compares the word with
  \<open>val\<close>, returns at once when they differ and puts the thread to sleep when they are equal.
  The result says whether the thread sleeps.
\<close>

definition qemu_futex_wait :: "u32 \<Rightarrow> u32 \<Rightarrow> bool" where
  "qemu_futex_wait mem val = (mem = val)"

subsection \<open>Program counters\<close>

text \<open>One constructor for each statement; the comment gives its line in \<^verbatim>\<open>event.c\<close>.\<close>

datatype init_pc =
    Init_mutex_init bool      \<comment> \<open>28\<close>
  | Init_cond_init bool       \<comment> \<open>29\<close>
  | Init_value bool           \<comment> \<open>32\<close>
  | Init_initialized          \<comment> \<open>33\<close>

datatype destroy_pc =
    Destroy_assert            \<comment> \<open>38\<close>
  | Destroy_initialized       \<comment> \<open>39\<close>
  | Destroy_mutex_destroy     \<comment> \<open>41\<close>
  | Destroy_cond_destroy      \<comment> \<open>42\<close>

datatype set_pc =
    Set_assert                \<comment> \<open>48\<close>
  | Set_read                  \<comment> \<open>57, 58\<close>
  | Set_xchg                  \<comment> \<open>59 to 63\<close>
  | Set_wake_all              \<comment> \<open>65\<close>
  | Set_lock                  \<comment> \<open>69\<close>
  | Set_store                 \<comment> \<open>70\<close>
  | Set_broadcast             \<comment> \<open>71\<close>
  | Set_unlock                \<comment> \<open>72\<close>

datatype reset_pc =
    Reset_assert              \<comment> \<open>78\<close>
  | Reset_or                  \<comment> \<open>84, 90\<close>

datatype wait_pc =
    Wait_assert               \<comment> \<open>95\<close>
  | Wait_load                 \<comment> \<open>108 to 113\<close>
  | Wait_cmpxchg              \<comment> \<open>125\<close>
  | Wait_futex_wait           \<comment> \<open>135, the call\<close>
  | Wait_futex_asleep         \<comment> \<open>135, asleep in the call\<close>
  | Wait_lock                 \<comment> \<open>138\<close>
  | Wait_read                 \<comment> \<open>139\<close>
  | Wait_cond_wait            \<comment> \<open>140, asleep in the call\<close>
  | Wait_unlock               \<comment> \<open>142\<close>

datatype pc =
    In_init init_pc
  | In_destroy destroy_pc
  | In_set set_pc
  | In_reset reset_pc
  | In_wait wait_pc
  | Returned                  \<comment> \<open>the call has returned\<close>
  | Aborted                   \<comment> \<open>an assertion failed: the process is terminated\<close>

subsection \<open>The five functions, one statement at a time\<close>

text \<open>
  \<^verbatim>\<open>qemu_event_init\<close>, lines 25 to 34. There is no assertion. Without \<^verbatim>\<open>HAVE_FUTEX\<close> the
  call starts by constructing the mutex and the condition variable.
\<close>

definition init_entry :: "bool \<Rightarrow> bool \<Rightarrow> pc" where
  "init_entry hf init = In_init (if hf then Init_value init else Init_mutex_init init)"

fun qemu_event_init :: "bool \<Rightarrow> init_pc \<Rightarrow> QemuEvent \<Rightarrow> pc \<times> QemuEvent" where
  "qemu_event_init hf (Init_mutex_init init) ev =
     (In_init (Init_cond_init init), ev\<lparr>lock := pthread_mutex_init (lock ev)\<rparr>)"
| "qemu_event_init hf (Init_cond_init init) ev =
     (In_init (Init_value init), ev\<lparr>cond := pthread_cond_init (cond ev)\<rparr>)"
| "qemu_event_init hf (Init_value init) ev =
     (In_init Init_initialized, ev\<lparr>ev_value := (if init then EV_SET else EV_FREE)\<rparr>)"
| "qemu_event_init hf Init_initialized ev =
     (Returned, ev\<lparr>initialized := True\<rparr>)"

text \<open>\<^verbatim>\<open>qemu_event_destroy\<close>, lines 36 to 44.\<close>

fun qemu_event_destroy :: "bool \<Rightarrow> destroy_pc \<Rightarrow> QemuEvent \<Rightarrow> pc \<times> QemuEvent" where
  "qemu_event_destroy hf Destroy_assert ev =
     (if initialized ev then In_destroy Destroy_initialized else Aborted, ev)"
| "qemu_event_destroy hf Destroy_initialized ev =
     (if hf then Returned else In_destroy Destroy_mutex_destroy, ev\<lparr>initialized := False\<rparr>)"
| "qemu_event_destroy hf Destroy_mutex_destroy ev =
     (In_destroy Destroy_cond_destroy, ev\<lparr>lock := pthread_mutex_destroy (lock ev)\<rparr>)"
| "qemu_event_destroy hf Destroy_cond_destroy ev =
     (Returned, ev\<lparr>cond := pthread_cond_destroy (cond ev)\<rparr>)"

text \<open>
  \<^verbatim>\<open>qemu_event_set\<close>, lines 46 to 74. With \<^verbatim>\<open>HAVE_FUTEX\<close>: read the word; unless it is
  \<^verbatim>\<open>EV_SET\<close>, exchange it with \<^verbatim>\<open>EV_SET\<close> and call \<^verbatim>\<open>qemu_futex_wake_all\<close> when the old
  content was \<^verbatim>\<open>EV_BUSY\<close>. Without it: lock, store \<^verbatim>\<open>EV_SET\<close>, broadcast, unlock.
  \<^verbatim>\<open>qemu_futex_wake_all\<close> and \<^verbatim>\<open>pthread_cond_broadcast\<close> act on sleeping threads and leave
  the event as it is.
\<close>

fun qemu_event_set :: "bool \<Rightarrow> set_pc \<Rightarrow> QemuEvent \<Rightarrow> pc \<times> QemuEvent" where
  "qemu_event_set hf Set_assert ev =
     (if initialized ev then In_set (if hf then Set_read else Set_lock) else Aborted, ev)"
| "qemu_event_set hf Set_read ev =
     (if qatomic_read (ev_value ev) \<noteq> EV_SET then In_set Set_xchg else Returned, ev)"
| "qemu_event_set hf Set_xchg ev =
     (let (old, new) = qatomic_xchg (ev_value ev) EV_SET
      in (if old = EV_BUSY then In_set Set_wake_all else Returned, ev\<lparr>ev_value := new\<rparr>))"
| "qemu_event_set hf Set_wake_all ev = (Returned, ev)"
| "qemu_event_set hf Set_lock ev = (In_set Set_store, ev)"
| "qemu_event_set hf Set_store ev =
     (In_set Set_broadcast, ev\<lparr>ev_value := qatomic_set (ev_value ev) EV_SET\<rparr>)"
| "qemu_event_set hf Set_broadcast ev = (In_set Set_unlock, ev)"
| "qemu_event_set hf Set_unlock ev = (Returned, ev)"

text \<open>\<^verbatim>\<open>qemu_event_reset\<close>, lines 76 to 91: the same in both builds.\<close>

fun qemu_event_reset :: "bool \<Rightarrow> reset_pc \<Rightarrow> QemuEvent \<Rightarrow> pc \<times> QemuEvent" where
  "qemu_event_reset hf Reset_assert ev =
     (if initialized ev then In_reset Reset_or else Aborted, ev)"
| "qemu_event_reset hf Reset_or ev =
     (Returned, ev\<lparr>ev_value := qatomic_or (ev_value ev) EV_FREE\<rparr>)"

text \<open>
  \<^verbatim>\<open>qemu_event_wait\<close>, lines 93 to 144.

  With \<^verbatim>\<open>HAVE_FUTEX\<close> the body is \<^verbatim>\<open>while (true)\<close>: after \<^verbatim>\<open>qemu_futex_wait\<close> the next
  statement is the load of line 108. Without it the body is an \<^verbatim>\<open>if\<close>: the read of line
  139 is made under the mutex, a thread that reads another state than \<^verbatim>\<open>EV_SET\<close> is asleep
  in \<^verbatim>\<open>pthread_cond_wait\<close> (which releases the mutex) at its next statement, and after
  \<^verbatim>\<open>pthread_cond_wait\<close> the next statement is the unlock of line 142.

  A sleeping thread takes no step of its own; a wake-up (or a spurious return) is an event
  of the environment, see \<open>wakeup\<close>.
\<close>

fun qemu_event_wait :: "bool \<Rightarrow> wait_pc \<Rightarrow> QemuEvent \<Rightarrow> pc \<times> QemuEvent" where
  "qemu_event_wait hf Wait_assert ev =
     (if initialized ev then In_wait (if hf then Wait_load else Wait_lock) else Aborted, ev)"
| "qemu_event_wait hf Wait_load ev =
     (let value = qatomic_load_acquire (ev_value ev)
      in (if value = EV_SET then Returned
          else if value = EV_FREE then In_wait Wait_cmpxchg
          else In_wait Wait_futex_wait, ev))"
| "qemu_event_wait hf Wait_cmpxchg ev =
     (let (old, new) = qatomic_cmpxchg (ev_value ev) EV_FREE EV_BUSY
      in (if old = EV_SET then Returned else In_wait Wait_futex_wait, ev\<lparr>ev_value := new\<rparr>))"
| "qemu_event_wait hf Wait_futex_wait ev =
     (if qemu_futex_wait (ev_value ev) EV_BUSY then In_wait Wait_futex_asleep
      else In_wait Wait_load, ev)"
| "qemu_event_wait hf Wait_futex_asleep ev = (In_wait Wait_futex_asleep, ev)"
| "qemu_event_wait hf Wait_lock ev = (In_wait Wait_read, ev)"
| "qemu_event_wait hf Wait_read ev =
     (if qatomic_read (ev_value ev) \<noteq> EV_SET then In_wait Wait_cond_wait
      else In_wait Wait_unlock, ev)"
| "qemu_event_wait hf Wait_cond_wait ev = (In_wait Wait_cond_wait, ev)"
| "qemu_event_wait hf Wait_unlock ev = (Returned, ev)"

text \<open>A sleeping thread that is woken leaves the call it sleeps in.\<close>

fun wakeup :: "pc \<Rightarrow> pc" where
  "wakeup (In_wait Wait_futex_asleep) = In_wait Wait_load"
| "wakeup (In_wait Wait_cond_wait) = In_wait Wait_unlock"
| "wakeup p = p"

subsection \<open>Running a call among other threads\<close>

text \<open>One statement of the thread, whichever call it is in.\<close>

fun step :: "bool \<Rightarrow> pc \<times> QemuEvent \<Rightarrow> pc \<times> QemuEvent" where
  "step hf (In_init p, ev) = qemu_event_init hf p ev"
| "step hf (In_destroy p, ev) = qemu_event_destroy hf p ev"
| "step hf (In_set p, ev) = qemu_event_set hf p ev"
| "step hf (In_reset p, ev) = qemu_event_reset hf p ev"
| "step hf (In_wait p, ev) = qemu_event_wait hf p ev"
| "step hf (Returned, ev) = (Returned, ev)"
| "step hf (Aborted, ev) = (Aborted, ev)"

text \<open>
  What can happen next to a thread and the event it shares: the thread executes its
  statement (\<open>Self\<close>); another thread, at statement \<open>q\<close> of one of the five functions,
  executes that statement on the same event (\<open>Other q\<close>); or the thread, if asleep, is
  woken, by a wake-all, a broadcast or spuriously (\<open>Wakeup\<close>).
\<close>

datatype event = Self | Other pc | Wakeup

fun exec1 :: "bool \<Rightarrow> event \<Rightarrow> pc \<times> QemuEvent \<Rightarrow> pc \<times> QemuEvent" where
  "exec1 hf Self c = step hf c"
| "exec1 hf (Other q) (p, ev) = (p, snd (step hf (q, ev)))"
| "exec1 hf Wakeup (p, ev) = (wakeup p, ev)"

fun run :: "bool \<Rightarrow> event list \<Rightarrow> pc \<times> QemuEvent \<Rightarrow> pc \<times> QemuEvent" where
  "run hf [] c = c"
| "run hf (e # es) c = run hf es (exec1 hf e c)"

text \<open>
  The statements the thread itself executed during a run, each with the event as it was
  when the statement was executed.
\<close>

fun own_steps :: "bool \<Rightarrow> event list \<Rightarrow> pc \<times> QemuEvent \<Rightarrow> (pc \<times> QemuEvent) list" where
  "own_steps hf [] c = []"
| "own_steps hf (Self # es) c = c # own_steps hf es (step hf c)"
| "own_steps hf (e # es) c = own_steps hf es (exec1 hf e c)"

text \<open>A thread running alone for \<open>n\<close> statements.\<close>

definition alone :: "nat \<Rightarrow> event list" where
  "alone n = replicate n Self"

text \<open>
  A call run by a thread alone. No call without interference executes more than five
  statements before it returns, aborts or sleeps (the longest is the fallback
  \<^verbatim>\<open>qemu_event_set\<close>: assert, lock, store, broadcast, unlock), and \<open>Returned\<close>, \<open>Aborted\<close>
  and the two sleeping statements do not move under \<open>Self\<close>.
\<close>

definition call :: "bool \<Rightarrow> pc \<Rightarrow> QemuEvent \<Rightarrow> pc \<times> QemuEvent" where
  "call hf p ev = run hf (alone 5) (p, ev)"

subsection \<open>What the properties speak about\<close>

text \<open>The three values of lines 21 to 23.\<close>

definition ev_states :: "u32 set" where
  "ev_states = {EV_SET, EV_FREE, EV_BUSY}"

text \<open>The valid transitions listed in the comment of lines 6 to 19.\<close>

definition valid_transition :: "u32 \<Rightarrow> u32 \<Rightarrow> bool" where
  "valid_transition a b =
     ((a = EV_FREE \<and> b = EV_SET) \<or> (a = EV_BUSY \<and> b = EV_SET) \<or>
      (a = EV_SET \<and> b = EV_FREE) \<or> (a = EV_FREE \<and> b = EV_BUSY))"

text \<open>
  The executed statement is the wake-all of \<^verbatim>\<open>qemu_event_set\<close>: \<^verbatim>\<open>qemu_futex_wake_all\<close>
  (line 65) or \<^verbatim>\<open>pthread_cond_broadcast\<close> (line 71).
\<close>

definition invokes_wake_all :: "pc \<times> QemuEvent \<Rightarrow> bool" where
  "invokes_wake_all c = (fst c = In_set Set_wake_all \<or> fst c = In_set Set_broadcast)"

text \<open>
  The executed statement is the write of \<^verbatim>\<open>EV_SET\<close> by \<^verbatim>\<open>qemu_event_set\<close> (line 59 or
  line 70) and the word it replaces holds \<^verbatim>\<open>EV_BUSY\<close>.
\<close>

definition replaces_BUSY :: "pc \<times> QemuEvent \<Rightarrow> bool" where
  "replaces_BUSY c =
     ((fst c = In_set Set_xchg \<or> fst c = In_set Set_store) \<and> ev_value (snd c) = EV_BUSY)"

text \<open>
  The executed statement of \<^verbatim>\<open>qemu_event_wait\<close> reads the word (lines 108, 125, 139) and
  the word holds \<^verbatim>\<open>EV_SET\<close>.
\<close>

definition observes_SET :: "pc \<times> QemuEvent \<Rightarrow> bool" where
  "observes_SET c =
     ((fst c = In_wait Wait_load \<or> fst c = In_wait Wait_cmpxchg \<or> fst c = In_wait Wait_read)
      \<and> ev_value (snd c) = EV_SET)"

text \<open>The thread sleeps: it is inside \<^verbatim>\<open>qemu_futex_wait\<close> or \<^verbatim>\<open>pthread_cond_wait\<close>.\<close>

definition asleep :: "pc \<Rightarrow> bool" where
  "asleep p = (p = In_wait Wait_futex_asleep \<or> p = In_wait Wait_cond_wait)"

text \<open>
  A statement of \<^verbatim>\<open>qemu_event_set\<close>, \<^verbatim>\<open>qemu_event_reset\<close> or \<^verbatim>\<open>qemu_event_wait\<close>, or a
  call that is over: anything but a statement of \<^verbatim>\<open>qemu_event_init\<close> or
  \<^verbatim>\<open>qemu_event_destroy\<close>.
\<close>

fun signalling :: "pc \<Rightarrow> bool" where
  "signalling (In_init p) = False"
| "signalling (In_destroy p) = False"
| "signalling p = True"

text \<open>
  An event of a schedule in which the other threads only set, reset and wait (the
  caller's contract for \<^verbatim>\<open>qemu_event_init\<close> and \<^verbatim>\<open>qemu_event_destroy\<close>).
\<close>

fun no_lifecycle :: "event \<Rightarrow> bool" where
  "no_lifecycle (Other q) = signalling q"
| "no_lifecycle e = True"

text \<open>An initialized event whose state is \<^verbatim>\<open>EV_FREE\<close>.\<close>

definition free_event :: QemuEvent where
  "free_event = \<lparr>lock = Constructed, cond = Constructed, ev_value = EV_FREE, initialized = True\<rparr>"

text \<open>An initialized event whose state is \<^verbatim>\<open>EV_SET\<close>.\<close>

definition set_event :: QemuEvent where
  "set_event = \<lparr>lock = Constructed, cond = Constructed, ev_value = EV_SET, initialized = True\<rparr>"

text \<open>An event that was never initialized.\<close>

definition fresh_event :: QemuEvent where
  "fresh_event = \<lparr>lock = Unconstructed, cond = Unconstructed, ev_value = 0, initialized = False\<rparr>"

subsection \<open>Statements executed, by the thread and by the others\<close>

text \<open>
  The statements the thread executed during a run, in order, up to its return (\<open>Self\<close>
  events after the return execute nothing).
\<close>

definition executed :: "bool \<Rightarrow> event list \<Rightarrow> pc \<times> QemuEvent \<Rightarrow> pc list" where
  "executed hf es c = filter (\<lambda>p. p \<noteq> Returned) (map fst (own_steps hf es c))"

text \<open>The executed statement is the read of line 58 and the word holds \<^verbatim>\<open>EV_SET\<close>.\<close>

definition reads_SET :: "pc \<times> QemuEvent \<Rightarrow> bool" where
  "reads_SET c = (fst c = In_set Set_read \<and> ev_value (snd c) = EV_SET)"












subsection \<open>Sets of statements used in the proofs\<close>

text \<open>The assertion that opens each of the four functions that have one.\<close>

fun is_assert :: "pc \<Rightarrow> bool" where
  "is_assert (In_destroy Destroy_assert) = True"
| "is_assert (In_set Set_assert) = True"
| "is_assert (In_reset Reset_assert) = True"
| "is_assert (In_wait Wait_assert) = True"
| "is_assert p = False"

text \<open>A thread that has not aborted and whose pending assertion, if any, will hold.\<close>

definition safe :: "pc \<times> QemuEvent \<Rightarrow> bool" where
  "safe c = (fst c \<noteq> Aborted \<and> (\<not> is_assert (fst c) \<or> initialized (snd c)))"

text \<open>The statements of \<^verbatim>\<open>qemu_event_set\<close> with \<^verbatim>\<open>HAVE_FUTEX\<close>, and without it up to the broadcast.\<close>

definition set_futex_pcs :: "pc set" where
  "set_futex_pcs =
     {In_set Set_assert, In_set Set_read, In_set Set_xchg, In_set Set_wake_all, Returned}"

definition set_fallback_pcs :: "pc set" where
  "set_fallback_pcs = {In_set Set_assert, In_set Set_lock, In_set Set_store, In_set Set_broadcast}"

text \<open>The statements of \<^verbatim>\<open>qemu_event_wait\<close> with \<^verbatim>\<open>HAVE_FUTEX\<close>.\<close>

definition wait_futex_pcs :: "pc set" where
  "wait_futex_pcs =
     {In_wait Wait_assert, In_wait Wait_load, In_wait Wait_cmpxchg, In_wait Wait_futex_wait,
      In_wait Wait_futex_asleep}"

text \<open>
  The statements of \<^verbatim>\<open>qemu_event_set\<close> from a statement on, with \<^verbatim>\<open>HAVE_FUTEX\<close> (\<open>r\<close>: the
  read finds \<^verbatim>\<open>EV_SET\<close>; \<open>b\<close>: the exchange replaces \<^verbatim>\<open>EV_BUSY\<close>) and without it.
\<close>

fun set_futex_from :: "pc \<Rightarrow> bool \<Rightarrow> bool \<Rightarrow> pc list" where
  "set_futex_from (In_set Set_assert) r b =
     In_set Set_assert # In_set Set_read #
       (if r then [] else In_set Set_xchg # (if b then [In_set Set_wake_all] else []))"
| "set_futex_from (In_set Set_read) r b =
     In_set Set_read #
       (if r then [] else In_set Set_xchg # (if b then [In_set Set_wake_all] else []))"
| "set_futex_from (In_set Set_xchg) r b =
     In_set Set_xchg # (if b then [In_set Set_wake_all] else [])"
| "set_futex_from (In_set Set_wake_all) r b = [In_set Set_wake_all]"
| "set_futex_from p r b = []"

fun set_fallback_from :: "pc \<Rightarrow> pc list" where
  "set_fallback_from (In_set Set_assert) =
     [In_set Set_assert, In_set Set_lock, In_set Set_store, In_set Set_broadcast, In_set Set_unlock]"
| "set_fallback_from (In_set Set_lock) =
     [In_set Set_lock, In_set Set_store, In_set Set_broadcast, In_set Set_unlock]"
| "set_fallback_from (In_set Set_store) = [In_set Set_store, In_set Set_broadcast, In_set Set_unlock]"
| "set_fallback_from (In_set Set_broadcast) = [In_set Set_broadcast, In_set Set_unlock]"
| "set_fallback_from (In_set Set_unlock) = [In_set Set_unlock]"
| "set_fallback_from p = []"

definition set_fallback_all :: "pc set" where
  "set_fallback_all = {In_set Set_assert, In_set Set_lock, In_set Set_store, In_set Set_broadcast,
     In_set Set_unlock, Returned}"

definition set_after_read :: "pc set" where
  "set_after_read = {In_set Set_xchg, In_set Set_wake_all, Returned}"

definition set_after_xchg :: "pc set" where
  "set_after_xchg = {In_set Set_wake_all, Returned}"



section \<open>Basic facts\<close>

lemma ev_distinct:
  "EV_SET \<noteq> EV_FREE" "EV_SET \<noteq> EV_BUSY" "EV_FREE \<noteq> EV_BUSY"
  "EV_FREE \<noteq> EV_SET" "EV_BUSY \<noteq> EV_SET" "EV_BUSY \<noteq> EV_FREE"
  by (simp_all add: EV_SET_def EV_FREE_def EV_BUSY_def)

lemma or_free:
  "EV_SET OR EV_FREE = EV_FREE" "EV_FREE OR EV_FREE = EV_FREE" "EV_BUSY OR EV_FREE = EV_BUSY"
  by (simp_all add: EV_SET_def EV_FREE_def EV_BUSY_def)

lemma or_free_idem: "(v OR EV_FREE) OR EV_FREE = v OR EV_FREE" for v :: u32
  by (simp add: or.assoc)

lemmas atomics = qatomic_read_def qatomic_load_acquire_def qatomic_set_def qatomic_xchg_def
  qatomic_or_def qatomic_cmpxchg_def qemu_futex_wait_def

lemmas pthreads = pthread_mutex_init_def pthread_cond_init_def pthread_mutex_destroy_def
  pthread_cond_destroy_def

lemma alone_5: "alone 5 = [Self, Self, Self, Self, Self]"
  by (simp add: alone_def eval_nat_numeral)

lemma run_Aborted: "fst (run hf es (Aborted, ev)) = Aborted"
  by (induction es arbitrary: ev) (simp_all, case_tac a, simp_all)


subsection \<open>Whole calls, run alone\<close>

lemma call_init:
  "call hf (init_entry hf b) ev =
     (Returned,
      if hf then ev\<lparr>ev_value := (if b then EV_SET else EV_FREE), initialized := True\<rparr>
      else ev\<lparr>lock := Constructed, cond := Constructed,
               ev_value := (if b then EV_SET else EV_FREE), initialized := True\<rparr>)"
  by (simp add: call_def alone_5 init_entry_def pthreads)

lemma call_destroy:
  "call hf (In_destroy Destroy_assert) ev =
     (if initialized ev
      then (Returned, if hf then ev\<lparr>initialized := False\<rparr>
                      else ev\<lparr>lock := Destroyed, cond := Destroyed, initialized := False\<rparr>)
      else (Aborted, ev))"
  by (simp add: call_def alone_5 pthreads)

lemma call_reset:
  "call hf (In_reset Reset_assert) ev =
     (if initialized ev then (Returned, ev\<lparr>ev_value := ev_value ev OR EV_FREE\<rparr>)
      else (Aborted, ev))"
  by (simp add: call_def alone_5 atomics)

lemma call_set_SET:
  "initialized ev \<Longrightarrow> ev_value ev = EV_SET \<Longrightarrow> call hf (In_set Set_assert) ev = (Returned, ev)"
  by (cases hf) (simp_all add: call_def alone_5 atomics)

lemma call_wait_SET:
  "initialized ev \<Longrightarrow> ev_value ev = EV_SET \<Longrightarrow> call hf (In_wait Wait_assert) ev = (Returned, ev)"
  by (cases hf) (simp_all add: call_def alone_5 atomics)

lemma call_uninitialized:
  "\<not> initialized ev \<Longrightarrow> is_assert p \<Longrightarrow> call hf p ev = (Aborted, ev)"
  by (cases p rule: is_assert.cases) (simp_all add: call_def alone_5)

section \<open>Initialization\<close>

text \<open>
  Claim C7. For every boolean \<open>init\<close>, \<^verbatim>\<open>qemu_event_init(ev, init)\<close> returns, and then the
  state is \<^verbatim>\<open>EV_SET\<close> if \<open>init\<close> is true and \<^verbatim>\<open>EV_FREE\<close> otherwise, the flag \<open>initialized\<close>
  is true, and in the fallback build the lock and the condition variable are constructed.
\<close>

theorem init_postcondition:
  "fst (call hf (init_entry hf init) ev) = Returned \<and>
   ev_value (snd (call hf (init_entry hf init) ev)) = (if init then EV_SET else EV_FREE) \<and>
   initialized (snd (call hf (init_entry hf init) ev)) \<and>
   lock (snd (call False (init_entry False init) ev)) = Constructed \<and>
   cond (snd (call False (init_entry False init) ev)) = Constructed"
  by (simp add: call_init)

lemma init_never_aborts: "fst (step hf (In_init p, ev)) \<noteq> Aborted"
  by (cases p) simp_all

text \<open>
  Claim C9. \<^verbatim>\<open>qemu_event_init\<close> does not check the flag \<open>initialized\<close>: no statement of it
  aborts, and on an event that is already initialized the call returns, having overwritten
  the state according to \<open>init\<close> and, in the fallback build, having initialized the lock
  and the condition variable again.
\<close>

theorem init_on_initialized_event:
  assumes "initialized ev"
  shows "fst (step hf (In_init p, ev)) \<noteq> Aborted \<and>
         call hf (init_entry hf init) ev =
           (Returned,
            if hf then ev\<lparr>ev_value := (if init then EV_SET else EV_FREE)\<rparr>
            else ev\<lparr>lock := pthread_mutex_init (lock ev), cond := pthread_cond_init (cond ev),
                     ev_value := (if init then EV_SET else EV_FREE)\<rparr>)"
proof
  show "fst (step hf (In_init p, ev)) \<noteq> Aborted"
    by (rule init_never_aborts)
next
  have "ev\<lparr>initialized := True\<rparr> = ev"
    using assms by simp
  then show "call hf (init_entry hf init) ev =
           (Returned,
            if hf then ev\<lparr>ev_value := (if init then EV_SET else EV_FREE)\<rparr>
            else ev\<lparr>lock := pthread_mutex_init (lock ev), cond := pthread_cond_init (cond ev),
                     ev_value := (if init then EV_SET else EV_FREE)\<rparr>)"
    using assms by (simp add: call_init pthreads)
qed

theorem init_on_initialized_event_witness:
  "initialized set_event \<and>
   fst (step False (In_init (Init_value False), set_event)) \<noteq> Aborted \<and>
   call False (init_entry False False) set_event = (Returned, free_event)"
proof -
  have h: "initialized set_event"
    by (simp add: set_event_def)
  have "set_event\<lparr>lock := pthread_mutex_init (lock set_event),
          cond := pthread_cond_init (cond set_event), ev_value := EV_FREE\<rparr> = free_event"
    by (simp add: set_event_def free_event_def pthreads)
  with h init_on_initialized_event [OF h, of False "Init_value False" False]
  show ?thesis by simp
qed

section \<open>The assertions\<close>

lemma step_signalling_initialized:
  "signalling q \<Longrightarrow> initialized (snd (step hf (q, ev))) = initialized ev"
  apply (cases q)
  apply simp_all
  subgoal for s by (cases s) (simp_all add: atomics)
  subgoal for s by (cases s) (simp_all add: atomics)
  subgoal for s by (cases s) (simp_all add: atomics Let_def)
  done

lemma step_aborts:
  "fst (step hf (p, ev)) = Aborted \<longleftrightarrow> p = Aborted \<or> (is_assert p \<and> \<not> initialized ev)"
  apply (cases p)
  subgoal for i by (cases i) simp_all
  subgoal for d by (cases d) simp_all
  subgoal for s by (cases s) (simp_all add: atomics)
  subgoal for r by (cases r) simp_all
  subgoal for w by (cases w) (simp_all add: atomics Let_def)
  by simp_all

lemma step_not_assert: "\<not> is_assert (fst (step hf (p, ev)))"
  apply (cases p)
  subgoal for i by (cases i) simp_all
  subgoal for d by (cases d) simp_all
  subgoal for s by (cases s) (simp_all add: atomics)
  subgoal for r by (cases r) simp_all
  subgoal for w by (cases w) (simp_all add: atomics Let_def)
  by simp_all

lemma wakeup_is_assert: "is_assert (wakeup p) = is_assert p"
  by (cases p rule: wakeup.cases) simp_all

lemma wakeup_Aborted: "wakeup p = Aborted \<longleftrightarrow> p = Aborted"
  by (cases p rule: wakeup.cases) simp_all

lemma exec1_safe:
  "safe c \<Longrightarrow> no_lifecycle e \<Longrightarrow> safe (exec1 hf e c)"
proof (cases c)
  case (Pair p ev)
  assume s: "safe c" and n: "no_lifecycle e"
  show ?thesis
  proof (cases e)
    case Self
    then show ?thesis
      using s Pair step_aborts [of hf p ev] step_not_assert [of hf p ev]
      by (auto simp add: safe_def)
  next
    case (Other q)
    then show ?thesis
      using s n Pair by (simp add: safe_def step_signalling_initialized)
  next
    case Wakeup
    then show ?thesis
      using s Pair by (simp add: safe_def wakeup_is_assert wakeup_Aborted)
  qed
qed

lemma run_safe:
  "safe c \<Longrightarrow> list_all no_lifecycle es \<Longrightarrow> safe (run hf es c)"
  by (induction es arbitrary: c) (simp_all add: exec1_safe)

lemma run_never_aborts:
  assumes "initialized ev" and "list_all no_lifecycle es" and "p \<noteq> Aborted"
  shows "fst (run hf es (p, ev)) \<noteq> Aborted"
  using run_safe [of "(p, ev)" es hf] assms by (simp add: safe_def)

lemma destroyed_uninitialized:
  "\<not> initialized (snd (call hf (In_destroy Destroy_assert) ev))"
  by (simp add: call_destroy)

text \<open>
  Claim C8. Each of \<^verbatim>\<open>qemu_event_destroy\<close>, \<^verbatim>\<open>qemu_event_set\<close>, \<^verbatim>\<open>qemu_event_reset\<close> and
  \<^verbatim>\<open>qemu_event_wait\<close> asserts \<open>initialized\<close> as its first statement. On an event that is
  not initialized the first statement, and so the call, aborts and leaves the event as it
  is; nothing is returned. So does every one of the four calls on an event that
  \<^verbatim>\<open>qemu_event_destroy\<close> has been called on. On an initialized event, whatever the other
  threads set, reset and wait, the call never aborts. A statement aborts only if it is one
  of the four assertions and the event is not initialized.
\<close>

theorem operations_assert_initialized:
  "(\<not> initialized ev \<longrightarrow>
      step hf (In_destroy Destroy_assert, ev) = (Aborted, ev) \<and>
      step hf (In_set Set_assert, ev) = (Aborted, ev) \<and>
      step hf (In_reset Reset_assert, ev) = (Aborted, ev) \<and>
      step hf (In_wait Wait_assert, ev) = (Aborted, ev) \<and>
      call hf (In_destroy Destroy_assert) ev = (Aborted, ev) \<and>
      call hf (In_set Set_assert) ev = (Aborted, ev) \<and>
      call hf (In_reset Reset_assert) ev = (Aborted, ev) \<and>
      call hf (In_wait Wait_assert) ev = (Aborted, ev)) \<and>
   fst (call hf (In_destroy Destroy_assert) (snd (call hf (In_destroy Destroy_assert) ev))) = Aborted \<and>
   fst (call hf (In_set Set_assert) (snd (call hf (In_destroy Destroy_assert) ev))) = Aborted \<and>
   fst (call hf (In_reset Reset_assert) (snd (call hf (In_destroy Destroy_assert) ev))) = Aborted \<and>
   fst (call hf (In_wait Wait_assert) (snd (call hf (In_destroy Destroy_assert) ev))) = Aborted \<and>
   (initialized ev \<and> list_all no_lifecycle es \<longrightarrow>
      fst (run hf es (In_destroy Destroy_assert, ev)) \<noteq> Aborted \<and>
      fst (run hf es (In_set Set_assert, ev)) \<noteq> Aborted \<and>
      fst (run hf es (In_reset Reset_assert, ev)) \<noteq> Aborted \<and>
      fst (run hf es (In_wait Wait_assert, ev)) \<noteq> Aborted) \<and>
   (fst (step hf (p, ev)) = Aborted \<longrightarrow>
      p = Aborted \<or>
      (\<not> initialized ev \<and>
       (p = In_destroy Destroy_assert \<or> p = In_set Set_assert \<or>
        p = In_reset Reset_assert \<or> p = In_wait Wait_assert)))"
proof (intro conjI impI)
  assume "fst (step hf (p, ev)) = Aborted"
  then have "p = Aborted \<or> (is_assert p \<and> \<not> initialized ev)"
    by (simp add: step_aborts)
  then show "p = Aborted \<or>
      (\<not> initialized ev \<and>
       (p = In_destroy Destroy_assert \<or> p = In_set Set_assert \<or>
        p = In_reset Reset_assert \<or> p = In_wait Wait_assert))"
    by (cases p rule: is_assert.cases) simp_all
qed (simp_all add: call_uninitialized run_never_aborts destroyed_uninitialized)

theorem operations_assert_initialized_witness:
  "\<not> initialized fresh_event \<and>
   call False (In_destroy Destroy_assert) fresh_event = (Aborted, fresh_event) \<and>
   call False (In_set Set_assert) fresh_event = (Aborted, fresh_event) \<and>
   call False (In_reset Reset_assert) fresh_event = (Aborted, fresh_event) \<and>
   call False (In_wait Wait_assert) fresh_event = (Aborted, fresh_event) \<and>
   initialized free_event \<and> list_all no_lifecycle [Other (In_reset Reset_or), Self, Self] \<and>
   fst (run False [Other (In_reset Reset_or), Self, Self] (In_set Set_assert, free_event)) \<noteq> Aborted \<and>
   fst (step False (In_wait Wait_assert, fresh_event)) = Aborted"
proof -
  have h1: "\<not> initialized fresh_event"
    by (simp add: fresh_event_def)
  have h2: "initialized free_event \<and> list_all no_lifecycle [Other (In_reset Reset_or), Self, Self]"
    by (simp add: free_event_def)
  from h1 h2
    operations_assert_initialized [of fresh_event False "[]" "In_wait Wait_assert"]
    operations_assert_initialized [of free_event False "[Other (In_reset Reset_or), Self, Self]" Returned]
  show ?thesis by simp
qed

section \<open>What each function leaves alone\<close>

lemma step_signalling: "signalling p \<Longrightarrow> signalling (fst (step hf (p, ev)))"
  apply (cases p)
  apply simp_all
  subgoal for s by (cases s) (simp_all add: atomics)
  subgoal for r by (cases r) (simp_all add: atomics)
  subgoal for w by (cases w) (simp_all add: atomics Let_def)
  done

lemma wakeup_signalling: "signalling (wakeup p) = signalling p"
  by (cases p rule: wakeup.cases) simp_all

lemma exec1_signalling:
  "signalling (fst c) \<Longrightarrow> no_lifecycle e \<Longrightarrow>
   signalling (fst (exec1 hf e c)) \<and> initialized (snd (exec1 hf e c)) = initialized (snd c)"
  by (cases e; cases c)
    (simp_all add: step_signalling step_signalling_initialized wakeup_signalling)

lemma run_signalling_initialized:
  "signalling (fst c) \<Longrightarrow> list_all no_lifecycle es \<Longrightarrow>
   initialized (snd (run hf es c)) = initialized (snd c)"
proof (induction es arbitrary: c)
  case Nil
  then show ?case by simp
next
  case (Cons e es)
  from Cons.prems exec1_signalling [of c e hf]
  have "signalling (fst (exec1 hf e c))" "initialized (snd (exec1 hf e c)) = initialized (snd c)"
    by simp_all
  with Cons.IH [of "exec1 hf e c"] Cons.prems show ?case by simp
qed

lemma step_init_initialized:
  "initialized (snd (step hf (In_init i, ev))) = (initialized ev \<or> i = Init_initialized)"
  by (cases i) simp_all

lemma step_destroy_initialized:
  "initialized (snd (step hf (In_destroy d, ev))) = (initialized ev \<and> d \<noteq> Destroy_initialized)"
  by (cases d) simp_all

lemma step_destroy_value:
  "ev_value (snd (step hf (In_destroy d, ev))) = ev_value ev"
  by (cases d) simp_all

text \<open>
  Claim C10. No statement of \<^verbatim>\<open>qemu_event_set\<close>, \<^verbatim>\<open>qemu_event_reset\<close> or \<^verbatim>\<open>qemu_event_wait\<close>
  changes the flag \<open>initialized\<close>, and neither does a whole run of one of them among other
  threads that set, reset and wait. The only statement of \<^verbatim>\<open>qemu_event_init\<close> that changes
  the flag is line 33, which makes it true; the only statement of \<^verbatim>\<open>qemu_event_destroy\<close>
  that changes it is line 39, which makes it false. \<^verbatim>\<open>qemu_event_destroy\<close> leaves the state
  word as it is.
\<close>

theorem initialized_flag_frame:
  "initialized (snd (step hf (In_set s, ev))) = initialized ev \<and>
   initialized (snd (step hf (In_reset r, ev))) = initialized ev \<and>
   initialized (snd (step hf (In_wait w, ev))) = initialized ev \<and>
   initialized (snd (step hf (In_init i, ev))) = (initialized ev \<or> i = Init_initialized) \<and>
   initialized (snd (step hf (In_destroy d, ev))) = (initialized ev \<and> d \<noteq> Destroy_initialized) \<and>
   ev_value (snd (step hf (In_destroy d, ev))) = ev_value ev \<and>
   ev_value (snd (call hf (In_destroy Destroy_assert) ev)) = ev_value ev \<and>
   (signalling p \<and> list_all no_lifecycle es \<longrightarrow>
      initialized (snd (run hf es (p, ev))) = initialized ev)"
proof -
  have set: "initialized (snd (step hf (In_set s, ev))) = initialized ev"
    by (rule step_signalling_initialized) simp
  have reset: "initialized (snd (step hf (In_reset r, ev))) = initialized ev"
    by (rule step_signalling_initialized) simp
  have wait: "initialized (snd (step hf (In_wait w, ev))) = initialized ev"
    by (rule step_signalling_initialized) simp
  have destroyed: "ev_value (snd (call hf (In_destroy Destroy_assert) ev)) = ev_value ev"
    by (simp add: call_destroy)
  have runs: "signalling p \<and> list_all no_lifecycle es \<longrightarrow>
      initialized (snd (run hf es (p, ev))) = initialized ev"
    using run_signalling_initialized [of "(p, ev)" es hf] by simp
  from set reset wait destroyed runs step_init_initialized [of hf i ev]
    step_destroy_initialized [of hf d ev] step_destroy_value [of hf d ev]
  show ?thesis by blast
qed

theorem initialized_flag_frame_witness:
  "signalling (In_wait Wait_assert) \<and>
   list_all no_lifecycle [Self, Self, Other (In_set Set_xchg), Self] \<and>
   initialized (snd (run True [Self, Self, Other (In_set Set_xchg), Self]
     (In_wait Wait_assert, free_event))) = initialized free_event"
proof -
  have h: "signalling (In_wait Wait_assert) \<and>
     list_all no_lifecycle [Self, Self, Other (In_set Set_xchg), Self]"
    by simp
  with initialized_flag_frame
    [of True _ free_event _ _ _ _ "In_wait Wait_assert" "[Self, Self, Other (In_set Set_xchg), Self]"]
  show ?thesis by blast
qed

section \<open>The state word\<close>

text \<open>
  Claim C4. The encodings are \<^verbatim>\<open>EV_SET\<close> = 0, \<^verbatim>\<open>EV_FREE\<close> = 1 and \<^verbatim>\<open>EV_BUSY\<close> = -1. The
  atomic OR of line 84 turns \<^verbatim>\<open>EV_SET\<close> into \<^verbatim>\<open>EV_FREE\<close>, leaves \<^verbatim>\<open>EV_FREE\<close> at
  \<^verbatim>\<open>EV_FREE\<close> and leaves \<^verbatim>\<open>EV_BUSY\<close> at \<^verbatim>\<open>EV_BUSY\<close>. So \<^verbatim>\<open>qemu_event_reset\<close> applied twice
  is \<^verbatim>\<open>qemu_event_reset\<close> applied once, and it never takes \<^verbatim>\<open>EV_BUSY\<close> to \<^verbatim>\<open>EV_FREE\<close>.
\<close>

theorem reset_or_algebra:
  "EV_SET = 0 \<and> EV_FREE = 1 \<and> EV_BUSY = - 1 \<and>
   step hf (In_reset Reset_or, ev\<lparr>ev_value := EV_SET\<rparr>) = (Returned, ev\<lparr>ev_value := EV_FREE\<rparr>) \<and>
   step hf (In_reset Reset_or, ev\<lparr>ev_value := EV_FREE\<rparr>) = (Returned, ev\<lparr>ev_value := EV_FREE\<rparr>) \<and>
   step hf (In_reset Reset_or, ev\<lparr>ev_value := EV_BUSY\<rparr>) = (Returned, ev\<lparr>ev_value := EV_BUSY\<rparr>) \<and>
   snd (step hf (In_reset Reset_or, snd (step hf (In_reset Reset_or, ev)))) =
     snd (step hf (In_reset Reset_or, ev)) \<and>
   call hf (In_reset Reset_assert) (snd (call hf (In_reset Reset_assert) ev)) =
     call hf (In_reset Reset_assert) ev \<and>
   \<not> (ev_value ev = EV_BUSY \<and> ev_value (snd (step hf (In_reset Reset_or, ev))) = EV_FREE) \<and>
   \<not> (ev_value ev = EV_BUSY \<and> ev_value (snd (call hf (In_reset Reset_assert) ev)) = EV_FREE)"
proof -
  have enc: "EV_SET = 0 \<and> EV_FREE = 1 \<and> EV_BUSY = - 1"
    by (simp add: EV_SET_def EV_FREE_def EV_BUSY_def)
  have vals:
    "step hf (In_reset Reset_or, ev\<lparr>ev_value := EV_SET\<rparr>) = (Returned, ev\<lparr>ev_value := EV_FREE\<rparr>)"
    "step hf (In_reset Reset_or, ev\<lparr>ev_value := EV_FREE\<rparr>) = (Returned, ev\<lparr>ev_value := EV_FREE\<rparr>)"
    "step hf (In_reset Reset_or, ev\<lparr>ev_value := EV_BUSY\<rparr>) = (Returned, ev\<lparr>ev_value := EV_BUSY\<rparr>)"
    by (simp_all add: atomics or_free)
  have idem1: "snd (step hf (In_reset Reset_or, snd (step hf (In_reset Reset_or, ev)))) =
     snd (step hf (In_reset Reset_or, ev))"
    by (simp add: atomics or_free_idem)
  have idem2: "call hf (In_reset Reset_assert) (snd (call hf (In_reset Reset_assert) ev)) =
     call hf (In_reset Reset_assert) ev"
    by (simp add: call_reset or_free_idem)
  have keep1: "\<not> (ev_value ev = EV_BUSY \<and> ev_value (snd (step hf (In_reset Reset_or, ev))) = EV_FREE)"
    by (auto simp add: atomics or_free ev_distinct)
  have keep2: "\<not> (ev_value ev = EV_BUSY \<and>
      ev_value (snd (call hf (In_reset Reset_assert) ev)) = EV_FREE)"
    by (auto simp add: call_reset or_free ev_distinct)
  from enc vals idem1 idem2 keep1 keep2 show ?thesis by blast
qed

lemma step_set_legal:
  "ev_value ev \<in> ev_states \<Longrightarrow>
   ev_value (snd (step hf (In_set s, ev))) = ev_value ev \<or>
   valid_transition (ev_value ev) (ev_value (snd (step hf (In_set s, ev))))"
  by (cases s) (auto simp add: atomics ev_states_def valid_transition_def)

lemma step_reset_legal:
  "ev_value ev \<in> ev_states \<Longrightarrow>
   ev_value (snd (step hf (In_reset r, ev))) = ev_value ev \<or>
   valid_transition (ev_value ev) (ev_value (snd (step hf (In_reset r, ev))))"
  by (cases r) (auto simp add: atomics ev_states_def valid_transition_def or_free)

lemma step_wait_legal:
  "ev_value ev \<in> ev_states \<Longrightarrow>
   ev_value (snd (step hf (In_wait w, ev))) = ev_value ev \<or>
   valid_transition (ev_value ev) (ev_value (snd (step hf (In_wait w, ev))))"
  by (cases w) (auto simp add: atomics ev_states_def valid_transition_def Let_def)

lemma valid_transition_states:
  "valid_transition a b \<Longrightarrow> b \<in> ev_states"
  by (auto simp add: valid_transition_def ev_states_def)

lemma valid_transition_never:
  "\<not> valid_transition EV_SET EV_BUSY" "\<not> valid_transition EV_BUSY EV_FREE"
  by (simp_all add: valid_transition_def ev_distinct)

lemma step_states:
  "ev_value ev \<in> ev_states \<Longrightarrow> ev_value (snd (step hf (p, ev))) \<in> ev_states"
proof (cases p)
  case (In_init i)
  assume "ev_value ev \<in> ev_states"
  then show ?thesis using In_init by (cases i) (simp_all add: ev_states_def)
next
  case (In_destroy d)
  assume "ev_value ev \<in> ev_states"
  then show ?thesis using In_destroy by (cases d) simp_all
next
  case (In_set s)
  assume "ev_value ev \<in> ev_states"
  from step_set_legal [OF this, of hf s] this show ?thesis
    using In_set by (auto dest: valid_transition_states)
next
  case (In_reset r)
  assume "ev_value ev \<in> ev_states"
  from step_reset_legal [OF this, of hf r] this show ?thesis
    using In_reset by (auto dest: valid_transition_states)
next
  case (In_wait w)
  assume "ev_value ev \<in> ev_states"
  from step_wait_legal [OF this, of hf w] this show ?thesis
    using In_wait by (auto dest: valid_transition_states)
qed simp_all

lemma exec1_states:
  "ev_value (snd c) \<in> ev_states \<Longrightarrow> ev_value (snd (exec1 hf e c)) \<in> ev_states"
  by (cases e; cases c) (simp_all add: step_states)

lemma run_states:
  "ev_value (snd c) \<in> ev_states \<Longrightarrow> ev_value (snd (run hf es c)) \<in> ev_states"
  by (induction es arbitrary: c) (simp_all add: exec1_states)

text \<open>
  Claim C5. Let the state word hold \<^verbatim>\<open>EV_SET\<close>, \<^verbatim>\<open>EV_FREE\<close> or \<^verbatim>\<open>EV_BUSY\<close>. Every statement
  \<open>p\<close> of \<^verbatim>\<open>qemu_event_set\<close>, \<^verbatim>\<open>qemu_event_reset\<close> and \<^verbatim>\<open>qemu_event_wait\<close> either leaves the
  word as it is or makes one of the four transitions free to set, busy to set, set to free,
  free to busy; no statement takes it from set to busy or from busy to free. Whatever the
  thread and the other threads execute, from such a state and so from initialization
  onward, the word holds one of the three values.
\<close>

theorem modifications_are_valid_transitions:
  assumes "ev_value ev \<in> ev_states" and "p = In_set s \<or> p = In_reset r \<or> p = In_wait w"
  shows "(ev_value (snd (step hf (p, ev))) = ev_value ev \<or>
          valid_transition (ev_value ev) (ev_value (snd (step hf (p, ev))))) \<and>
         \<not> (ev_value ev = EV_SET \<and> ev_value (snd (step hf (p, ev))) = EV_BUSY) \<and>
         \<not> (ev_value ev = EV_BUSY \<and> ev_value (snd (step hf (p, ev))) = EV_FREE) \<and>
         ev_value (snd (run hf es (q, ev))) \<in> ev_states \<and>
         ev_value (snd (run hf es (q, snd (call hf (init_entry hf init) ev0)))) \<in> ev_states"
proof -
  have legal: "ev_value (snd (step hf (p, ev))) = ev_value ev \<or>
      valid_transition (ev_value ev) (ev_value (snd (step hf (p, ev))))"
    using assms(2) step_set_legal [OF assms(1), of hf s] step_reset_legal [OF assms(1), of hf r]
      step_wait_legal [OF assms(1), of hf w]
    by blast
  have no_set_busy: "\<not> (ev_value ev = EV_SET \<and> ev_value (snd (step hf (p, ev))) = EV_BUSY)"
    using legal valid_transition_never(1) ev_distinct(2) by metis
  have no_busy_free: "\<not> (ev_value ev = EV_BUSY \<and> ev_value (snd (step hf (p, ev))) = EV_FREE)"
    using legal valid_transition_never(2) ev_distinct(6) by metis
  have "ev_value (snd (call hf (init_entry hf init) ev0)) \<in> ev_states"
    by (simp add: call_init ev_states_def)
  then have from_init:
    "ev_value (snd (run hf es (q, snd (call hf (init_entry hf init) ev0)))) \<in> ev_states"
    using run_states [of "(q, snd (call hf (init_entry hf init) ev0))" hf es] by simp
  have from_here: "ev_value (snd (run hf es (q, ev))) \<in> ev_states"
    using assms(1) run_states [of "(q, ev)" hf es] by simp
  from legal no_set_busy no_busy_free from_here from_init show ?thesis by blast
qed

theorem modifications_are_valid_transitions_witness:
  "ev_value free_event \<in> ev_states \<and>
   valid_transition (ev_value free_event)
     (ev_value (snd (step True (In_wait Wait_cmpxchg, free_event)))) \<and>
   ev_value (snd (run True [Self, Other (In_wait Wait_cmpxchg), Self, Other (In_reset Reset_or), Self]
     (In_set Set_assert, free_event))) \<in> ev_states"
proof -
  have h: "ev_value free_event \<in> ev_states"
    by (simp add: free_event_def ev_states_def)
  have p: "In_wait Wait_cmpxchg = In_set Set_assert \<or> In_wait Wait_cmpxchg = In_reset Reset_assert \<or>
      In_wait Wait_cmpxchg = In_wait Wait_cmpxchg"
    by simp
  have moved: "ev_value (snd (step True (In_wait Wait_cmpxchg, free_event))) \<noteq> ev_value free_event"
    by (simp add: free_event_def atomics ev_distinct)
  from h moved modifications_are_valid_transitions [OF h p, of True
      "[Self, Other (In_wait Wait_cmpxchg), Self, Other (In_reset Reset_or), Self]"
      "In_set Set_assert" True fresh_event]
  show ?thesis by blast
qed

section \<open>Waiting on an event that is set\<close>

lemma own_steps_wait_SET:
  "initialized ev \<Longrightarrow> ev_value ev = EV_SET \<Longrightarrow>
   map fst (own_steps hf (alone 5) (In_wait Wait_assert, ev)) =
     (if hf then [In_wait Wait_assert, In_wait Wait_load, Returned, Returned, Returned]
      else [In_wait Wait_assert, In_wait Wait_lock, In_wait Wait_read, In_wait Wait_unlock,
            Returned])"
  by (cases hf) (simp_all add: alone_5 atomics)

lemma wait_SET_awake:
  "initialized ev \<Longrightarrow> ev_value ev = EV_SET \<Longrightarrow>
   \<not> list_ex asleep (map fst (own_steps hf (alone 5) (In_wait Wait_assert, ev)))"
  by (simp add: own_steps_wait_SET asleep_def)

lemma wait_cmpxchg_SET:
  "ev_value ev = EV_SET \<Longrightarrow> step hf (In_wait Wait_cmpxchg, ev) = (Returned, ev)"
  by (simp add: atomics ev_distinct)

lemma wait_after_init_True:
  "call hf (In_wait Wait_assert) (snd (call hf (init_entry hf True) ev0)) =
     (Returned, snd (call hf (init_entry hf True) ev0))"
  by (rule call_wait_SET) (simp_all add: call_init)

lemma wait_after_init_True_awake:
  "\<not> list_ex asleep (map fst (own_steps hf (alone 5)
       (In_wait Wait_assert, snd (call hf (init_entry hf True) ev0))))"
  by (rule wait_SET_awake) (simp_all add: call_init)

text \<open>
  The compare-and-swap of line 125 can find \<^verbatim>\<open>EV_SET\<close>: the waiter loads \<^verbatim>\<open>EV_FREE\<close>,
  another thread's \<^verbatim>\<open>qemu_event_set\<close> exchanges the word, and the waiter's compare-and-swap
  fails on \<^verbatim>\<open>EV_SET\<close>.
\<close>

lemma wait_cmpxchg_after_concurrent_set:
  "run True [Self, Self, Other (In_set Set_xchg), Self] (In_wait Wait_assert, free_event) =
     (Returned, set_event)"
  by (simp add: free_event_def set_event_def atomics ev_distinct)

text \<open>
  Claim C6. If the state of an initialized event is \<^verbatim>\<open>EV_SET\<close> when \<^verbatim>\<open>qemu_event_wait\<close> is
  called and no other thread interferes, the call returns without sleeping and leaves the
  event as it is. If the compare-and-swap of line 125 finds \<^verbatim>\<open>EV_SET\<close>, the call returns
  at that statement. In particular \<^verbatim>\<open>qemu_event_init(ev, true)\<close> followed by
  \<^verbatim>\<open>qemu_event_wait(ev)\<close> returns without sleeping.
\<close>

theorem wait_returns_at_once_when_SET:
  "(initialized ev \<and> ev_value ev = EV_SET \<longrightarrow>
      call hf (In_wait Wait_assert) ev = (Returned, ev) \<and>
      \<not> list_ex asleep (map fst (own_steps hf (alone 5) (In_wait Wait_assert, ev)))) \<and>
   (ev_value ev = EV_SET \<longrightarrow> step hf (In_wait Wait_cmpxchg, ev) = (Returned, ev)) \<and>
   call hf (In_wait Wait_assert) (snd (call hf (init_entry hf True) ev0)) =
     (Returned, snd (call hf (init_entry hf True) ev0)) \<and>
   \<not> list_ex asleep (map fst (own_steps hf (alone 5)
       (In_wait Wait_assert, snd (call hf (init_entry hf True) ev0))))"
  using call_wait_SET [of ev hf] wait_SET_awake [of ev hf] wait_cmpxchg_SET [of ev hf]
    wait_after_init_True [of hf ev0] wait_after_init_True_awake [of hf ev0]
  by blast

theorem wait_returns_at_once_when_SET_witness:
  "initialized set_event \<and> ev_value set_event = EV_SET \<and>
   call True (In_wait Wait_assert) set_event = (Returned, set_event) \<and>
   call False (In_wait Wait_assert) set_event = (Returned, set_event) \<and>
   \<not> list_ex asleep (map fst (own_steps False (alone 5) (In_wait Wait_assert, set_event))) \<and>
   step True (In_wait Wait_cmpxchg, set_event) = (Returned, set_event)"
proof -
  have h: "initialized set_event \<and> ev_value set_event = EV_SET"
    by (simp add: set_event_def)
  show ?thesis
    using h wait_returns_at_once_when_SET [of set_event True fresh_event]
      wait_returns_at_once_when_SET [of set_event False fresh_event]
    by blast
qed

section \<open>Setting and waking\<close>

lemma set_wake_futex:
  "fst (run True es (p, ev)) = Returned \<Longrightarrow> p \<in> set_futex_pcs \<Longrightarrow>
   list_ex invokes_wake_all (own_steps True es (p, ev)) =
     (p = In_set Set_wake_all \<or> list_ex replaces_BUSY (own_steps True es (p, ev)))"
proof (induction es arbitrary: p ev)
  case Nil
  then show ?case by simp
next
  case (Cons e es)
  show ?case
  proof (cases e)
    case Self
    from Cons.prems(2) consider "p = In_set Set_assert" | "p = In_set Set_read"
      | "p = In_set Set_xchg" | "p = In_set Set_wake_all" | "p = Returned"
      by (auto simp add: set_futex_pcs_def)
    then show ?thesis
    proof cases
      case 1
      show ?thesis
      proof (cases "initialized ev")
        case True
        with 1 Self Cons.prems Cons.IH [of "In_set Set_read" ev] show ?thesis
          by (simp add: set_futex_pcs_def invokes_wake_all_def replaces_BUSY_def)
      next
        case False
        with 1 Self Cons.prems show ?thesis by (simp add: run_Aborted)
      qed
    next
      case 2
      show ?thesis
      proof (cases "ev_value ev = EV_SET")
        case True
        with 2 Self Cons.prems Cons.IH [of Returned ev] show ?thesis
          by (simp add: set_futex_pcs_def invokes_wake_all_def replaces_BUSY_def atomics)
      next
        case False
        with 2 Self Cons.prems Cons.IH [of "In_set Set_xchg" ev] show ?thesis
          by (simp add: set_futex_pcs_def invokes_wake_all_def replaces_BUSY_def atomics)
      qed
    next
      case 3
      show ?thesis
      proof (cases "ev_value ev = EV_BUSY")
        case True
        with 3 Self Cons.prems Cons.IH [of "In_set Set_wake_all" "ev\<lparr>ev_value := EV_SET\<rparr>"]
        show ?thesis
          by (simp add: set_futex_pcs_def invokes_wake_all_def replaces_BUSY_def atomics)
      next
        case False
        with 3 Self Cons.prems Cons.IH [of Returned "ev\<lparr>ev_value := EV_SET\<rparr>"]
        show ?thesis
          by (simp add: set_futex_pcs_def invokes_wake_all_def replaces_BUSY_def atomics)
      qed
    next
      case 4
      with Self show ?thesis by (simp add: invokes_wake_all_def)
    next
      case 5
      with Self Cons.prems Cons.IH [of Returned ev] show ?thesis
        by (simp add: set_futex_pcs_def invokes_wake_all_def replaces_BUSY_def)
    qed
  next
    case (Other q)
    with Cons.prems Cons.IH [of p "snd (step True (q, ev))"] show ?thesis by simp
  next
    case Wakeup
    have "wakeup p = p" using Cons.prems(2) by (auto simp add: set_futex_pcs_def)
    with Wakeup Cons.prems Cons.IH [of p ev] show ?thesis by simp
  qed
qed

lemma set_wake_fallback:
  "fst (run False es (p, ev)) = Returned \<Longrightarrow> p \<in> set_fallback_pcs \<Longrightarrow>
   list_ex invokes_wake_all (own_steps False es (p, ev))"
proof (induction es arbitrary: p ev)
  case Nil
  then show ?case by (auto simp add: set_fallback_pcs_def)
next
  case (Cons e es)
  show ?case
  proof (cases e)
    case Self
    from Cons.prems(2) consider "p = In_set Set_assert" | "p = In_set Set_lock"
      | "p = In_set Set_store" | "p = In_set Set_broadcast"
      by (auto simp add: set_fallback_pcs_def)
    then show ?thesis
    proof cases
      case 1
      show ?thesis
      proof (cases "initialized ev")
        case True
        with 1 Self Cons.prems Cons.IH [of "In_set Set_lock" ev] show ?thesis
          by (simp add: set_fallback_pcs_def)
      next
        case False
        with 1 Self Cons.prems show ?thesis by (simp add: run_Aborted)
      qed
    next
      case 2
      with Self Cons.prems Cons.IH [of "In_set Set_store" ev] show ?thesis
        by (simp add: set_fallback_pcs_def)
    next
      case 3
      with Self Cons.prems Cons.IH [of "In_set Set_broadcast" "ev\<lparr>ev_value := EV_SET\<rparr>"]
      show ?thesis
        by (simp add: set_fallback_pcs_def atomics)
    next
      case 4
      with Self show ?thesis by (simp add: invokes_wake_all_def)
    qed
  next
    case (Other q)
    with Cons.prems Cons.IH [of p "snd (step False (q, ev))"] show ?thesis by simp
  next
    case Wakeup
    have "wakeup p = p" using Cons.prems(2) by (auto simp add: set_fallback_pcs_def)
    with Wakeup Cons.prems Cons.IH [of p ev] show ?thesis by simp
  qed
qed

lemma reads_SET_pair: "reads_SET (p, ev) = (p = In_set Set_read \<and> ev_value ev = EV_SET)"
  by (simp add: reads_SET_def)

lemma replaces_BUSY_pair:
  "replaces_BUSY (p, ev) =
     ((p = In_set Set_xchg \<or> p = In_set Set_store) \<and> ev_value ev = EV_BUSY)"
  by (simp add: replaces_BUSY_def)

lemma executed_Nil: "executed hf [] c = []"
  by (simp add: executed_def)

lemma executed_Self:
  "executed hf (Self # es) (p, ev) =
     (if p = Returned then [] else [p]) @ executed hf es (step hf (p, ev))"
  by (simp add: executed_def)

lemma executed_Other:
  "executed hf (Other q # es) (p, ev) = executed hf es (p, snd (step hf (q, ev)))"
  by (simp add: executed_def)

lemma executed_Wakeup:
  "executed hf (Wakeup # es) (p, ev) = executed hf es (wakeup p, ev)"
  by (simp add: executed_def)

lemma set_fallback_executed:
  "fst (run False es (p, ev)) = Returned \<Longrightarrow> p \<in> set_fallback_all \<Longrightarrow>
   executed False es (p, ev) = set_fallback_from p"
proof (induction es arbitrary: p ev)
  case Nil
  then show ?case by (simp add: executed_Nil)
next
  case (Cons e es)
  show ?case
  proof (cases e)
    case Self
    from Cons.prems(2) consider "p = In_set Set_assert" | "p = In_set Set_lock"
      | "p = In_set Set_store" | "p = In_set Set_broadcast" | "p = In_set Set_unlock"
      | "p = Returned"
      by (auto simp add: set_fallback_all_def)
    then show ?thesis
    proof cases
      case 1
      show ?thesis
      proof (cases "initialized ev")
        case True
        with 1 Self Cons.prems Cons.IH [of "In_set Set_lock" ev] show ?thesis
          by (simp add: set_fallback_all_def executed_Self)
      next
        case False
        with 1 Self Cons.prems show ?thesis by (simp add: run_Aborted)
      qed
    next
      case 2
      with Self Cons.prems Cons.IH [of "In_set Set_store" ev] show ?thesis
        by (simp add: set_fallback_all_def executed_Self)
    next
      case 3
      with Self Cons.prems Cons.IH [of "In_set Set_broadcast" "ev\<lparr>ev_value := EV_SET\<rparr>"]
      show ?thesis
        by (simp add: set_fallback_all_def executed_Self atomics)
    next
      case 4
      with Self Cons.prems Cons.IH [of "In_set Set_unlock" ev] show ?thesis
        by (simp add: set_fallback_all_def executed_Self)
    next
      case 5
      with Self Cons.prems Cons.IH [of Returned ev] show ?thesis
        by (simp add: set_fallback_all_def executed_Self)
    next
      case 6
      with Self Cons.prems Cons.IH [of Returned ev] show ?thesis
        by (simp add: set_fallback_all_def executed_Self)
    qed
  next
    case (Other q)
    with Cons.prems Cons.IH [of p "snd (step False (q, ev))"] show ?thesis
      by (simp add: executed_Other)
  next
    case Wakeup
    have "wakeup p = p" using Cons.prems(2) by (auto simp add: set_fallback_all_def)
    with Wakeup Cons.prems Cons.IH [of p ev] show ?thesis by (simp add: executed_Wakeup)
  qed
qed

lemma set_no_later_read:
  "p \<in> set_after_read \<Longrightarrow> \<not> list_ex reads_SET (own_steps True es (p, ev))"
proof (induction es arbitrary: p ev)
  case Nil
  then show ?case by simp
next
  case (Cons e es)
  from Cons.prems have w: "wakeup p = p" by (auto simp add: set_after_read_def)
  from Cons.prems have n: "\<not> reads_SET (p, ev)" by (auto simp add: set_after_read_def reads_SET_pair)
  from Cons.prems have s: "fst (step True (p, ev)) \<in> set_after_read"
    by (auto simp add: set_after_read_def atomics split: if_splits)
  show ?case
  proof (cases e)
    case Self
    with n s Cons.IH [of "fst (step True (p, ev))" "snd (step True (p, ev))"] show ?thesis by simp
  next
    case (Other q)
    with Cons.prems Cons.IH [of p "snd (step True (q, ev))"] show ?thesis by simp
  next
    case Wakeup
    with w Cons.prems Cons.IH [of p ev] show ?thesis by simp
  qed
qed

lemma set_no_later_xchg:
  "p \<in> set_after_xchg \<Longrightarrow> \<not> list_ex replaces_BUSY (own_steps True es (p, ev))"
proof (induction es arbitrary: p ev)
  case Nil
  then show ?case by simp
next
  case (Cons e es)
  from Cons.prems have w: "wakeup p = p" by (auto simp add: set_after_xchg_def)
  from Cons.prems have n: "\<not> replaces_BUSY (p, ev)"
    by (auto simp add: set_after_xchg_def replaces_BUSY_pair)
  from Cons.prems have s: "fst (step True (p, ev)) \<in> set_after_xchg"
    by (auto simp add: set_after_xchg_def)
  show ?case
  proof (cases e)
    case Self
    with n s Cons.IH [of "fst (step True (p, ev))" "snd (step True (p, ev))"] show ?thesis by simp
  next
    case (Other q)
    with Cons.prems Cons.IH [of p "snd (step True (q, ev))"] show ?thesis by simp
  next
    case Wakeup
    with w Cons.prems Cons.IH [of p ev] show ?thesis by simp
  qed
qed

lemma set_futex_executed:
  "fst (run True es (p, ev)) = Returned \<Longrightarrow> p \<in> set_futex_pcs \<Longrightarrow>
   executed True es (p, ev) =
     set_futex_from p (list_ex reads_SET (own_steps True es (p, ev)))
       (list_ex replaces_BUSY (own_steps True es (p, ev)))"
proof (induction es arbitrary: p ev)
  case Nil
  then show ?case by (simp add: executed_Nil)
next
  case (Cons e es)
  show ?case
  proof (cases e)
    case Self
    from Cons.prems(2) consider "p = In_set Set_assert" | "p = In_set Set_read"
      | "p = In_set Set_xchg" | "p = In_set Set_wake_all" | "p = Returned"
      by (auto simp add: set_futex_pcs_def)
    then show ?thesis
    proof cases
      case 1
      show ?thesis
      proof (cases "initialized ev")
        case True
        with 1 Self Cons.prems Cons.IH [of "In_set Set_read" ev] show ?thesis
          by (simp add: set_futex_pcs_def executed_Self reads_SET_pair replaces_BUSY_pair)
      next
        case False
        with 1 Self Cons.prems show ?thesis by (simp add: run_Aborted)
      qed
    next
      case 2
      show ?thesis
      proof (cases "ev_value ev = EV_SET")
        case True
        with 2 Self Cons.prems Cons.IH [of Returned ev] show ?thesis
          by (simp add: set_futex_pcs_def executed_Self reads_SET_pair replaces_BUSY_pair atomics)
      next
        case False
        have "\<not> list_ex reads_SET (own_steps True es (In_set Set_xchg, ev))"
          by (rule set_no_later_read) (simp add: set_after_read_def)
        with False 2 Self Cons.prems Cons.IH [of "In_set Set_xchg" ev] show ?thesis
          by (simp add: set_futex_pcs_def executed_Self reads_SET_pair replaces_BUSY_pair atomics)
      qed
    next
      case 3
      show ?thesis
      proof (cases "ev_value ev = EV_BUSY")
        case True
        with 3 Self Cons.prems Cons.IH [of "In_set Set_wake_all" "ev\<lparr>ev_value := EV_SET\<rparr>"]
        show ?thesis
          by (simp add: set_futex_pcs_def executed_Self reads_SET_pair replaces_BUSY_pair atomics)
      next
        case False
        have "\<not> list_ex replaces_BUSY (own_steps True es (Returned, ev\<lparr>ev_value := EV_SET\<rparr>))"
          by (rule set_no_later_xchg) (simp add: set_after_xchg_def)
        with False 3 Self Cons.prems Cons.IH [of Returned "ev\<lparr>ev_value := EV_SET\<rparr>"]
        show ?thesis
          by (simp add: set_futex_pcs_def executed_Self reads_SET_pair replaces_BUSY_pair atomics)
      qed
    next
      case 4
      with Self Cons.prems Cons.IH [of Returned ev] show ?thesis
        by (simp add: set_futex_pcs_def executed_Self reads_SET_pair replaces_BUSY_pair)
    next
      case 5
      with Self Cons.prems Cons.IH [of Returned ev] show ?thesis
        by (simp add: set_futex_pcs_def executed_Self reads_SET_pair replaces_BUSY_pair)
    qed
  next
    case (Other q)
    with Cons.prems Cons.IH [of p "snd (step True (q, ev))"] show ?thesis
      by (simp add: executed_Other)
  next
    case Wakeup
    have "wakeup p = p" using Cons.prems(2) by (auto simp add: set_futex_pcs_def)
    with Wakeup Cons.prems Cons.IH [of p ev] show ?thesis by (simp add: executed_Wakeup)
  qed
qed

lemma own_steps_set_SET:
  "initialized ev \<Longrightarrow> ev_value ev = EV_SET \<Longrightarrow>
   list_ex invokes_wake_all (own_steps hf (alone 5) (In_set Set_assert, ev)) = (\<not> hf)"
  by (cases hf) (simp_all add: alone_5 atomics invokes_wake_all_def)

text \<open>
  Claim C3, as stated: in both builds \<^verbatim>\<open>qemu_event_set\<close> invokes the wake-all if and only
  if the state it replaced was \<^verbatim>\<open>EV_BUSY\<close>, and issues no wake when the state is already
  \<^verbatim>\<open>EV_SET\<close>. It fails in the fallback build: on an initialized event whose state is
  \<^verbatim>\<open>EV_SET\<close> the call returns having executed \<^verbatim>\<open>pthread_cond_broadcast\<close> (line 71), and
  the state it replaced was not \<^verbatim>\<open>EV_BUSY\<close>.
\<close>

theorem set_fallback_broadcasts_when_SET:
  "initialized set_event \<and> ev_value set_event = EV_SET \<and>
   fst (call False (In_set Set_assert) set_event) = Returned \<and>
   list_ex invokes_wake_all (own_steps False (alone 5) (In_set Set_assert, set_event)) \<and>
   \<not> list_ex replaces_BUSY (own_steps False (alone 5) (In_set Set_assert, set_event))"
  by (simp add: call_def alone_5 set_event_def atomics invokes_wake_all_def replaces_BUSY_def
      ev_distinct)

lemma set_writes:
  "step hf (In_set Set_xchg, ev) =
     (if ev_value ev = EV_BUSY then In_set Set_wake_all else Returned, ev\<lparr>ev_value := EV_SET\<rparr>)"
  "step hf (In_set Set_store, ev) = (In_set Set_broadcast, ev\<lparr>ev_value := EV_SET\<rparr>)"
  by (simp_all add: atomics)

lemma set_other_statements:
  "s = Set_xchg \<or> s = Set_store \<or> snd (step hf (In_set s, ev)) = ev"
  by (cases s) (simp_all add: atomics)

text \<open>
  Claim C3, amended. A call of \<^verbatim>\<open>qemu_event_set\<close> that returns, run among any other
  threads, has executed these statements. With \<^verbatim>\<open>HAVE_FUTEX\<close>: the assertion and the read;
  if the read found \<^verbatim>\<open>EV_SET\<close> nothing more, otherwise the exchange, and then
  \<^verbatim>\<open>qemu_futex_wake_all\<close> if and only if the exchange replaced \<^verbatim>\<open>EV_BUSY\<close>. Without
  \<^verbatim>\<open>HAVE_FUTEX\<close>: always the assertion, the lock, the store, the broadcast and the unlock,
  in this order. The exchange and the store write \<^verbatim>\<open>EV_SET\<close>; no other statement of
  \<^verbatim>\<open>qemu_event_set\<close> changes the event. On an initialized event whose state is already
  \<^verbatim>\<open>EV_SET\<close>, a call run alone returns and leaves the event as it is; it has invoked a
  wake-all exactly in the fallback build.
\<close>

theorem set_wakes_futex_iff_replaced_BUSY:
  "(fst (run hf es (In_set Set_assert, ev)) = Returned \<longrightarrow>
      list_ex invokes_wake_all (own_steps hf es (In_set Set_assert, ev)) =
        (if hf then list_ex replaces_BUSY (own_steps hf es (In_set Set_assert, ev)) else True) \<and>
      executed hf es (In_set Set_assert, ev) =
        (if hf
         then In_set Set_assert # In_set Set_read #
           (if list_ex reads_SET (own_steps hf es (In_set Set_assert, ev)) then []
            else In_set Set_xchg #
              (if list_ex replaces_BUSY (own_steps hf es (In_set Set_assert, ev))
               then [In_set Set_wake_all] else []))
         else [In_set Set_assert, In_set Set_lock, In_set Set_store, In_set Set_broadcast,
               In_set Set_unlock])) \<and>
   step hf (In_set Set_xchg, ev) =
     (if ev_value ev = EV_BUSY then In_set Set_wake_all else Returned, ev\<lparr>ev_value := EV_SET\<rparr>) \<and>
   step hf (In_set Set_store, ev) = (In_set Set_broadcast, ev\<lparr>ev_value := EV_SET\<rparr>) \<and>
   (s = Set_xchg \<or> s = Set_store \<or> snd (step hf (In_set s, ev)) = ev) \<and>
   (initialized ev \<and> ev_value ev = EV_SET \<longrightarrow>
      call hf (In_set Set_assert) ev = (Returned, ev) \<and>
      list_ex invokes_wake_all (own_steps hf (alone 5) (In_set Set_assert, ev)) = (\<not> hf))"
proof (intro conjI impI)
  assume r: "fst (run hf es (In_set Set_assert, ev)) = Returned"
  show "list_ex invokes_wake_all (own_steps hf es (In_set Set_assert, ev)) =
        (if hf then list_ex replaces_BUSY (own_steps hf es (In_set Set_assert, ev)) else True)"
  proof (cases hf)
    case True
    with r set_wake_futex [of es "In_set Set_assert" ev] show ?thesis
      by (simp add: set_futex_pcs_def)
  next
    case False
    with r set_wake_fallback [of es "In_set Set_assert" ev] show ?thesis
      by (simp add: set_fallback_pcs_def)
  qed
  show "executed hf es (In_set Set_assert, ev) =
        (if hf
         then In_set Set_assert # In_set Set_read #
           (if list_ex reads_SET (own_steps hf es (In_set Set_assert, ev)) then []
            else In_set Set_xchg #
              (if list_ex replaces_BUSY (own_steps hf es (In_set Set_assert, ev))
               then [In_set Set_wake_all] else []))
         else [In_set Set_assert, In_set Set_lock, In_set Set_store, In_set Set_broadcast,
               In_set Set_unlock])"
  proof (cases hf)
    case True
    with r set_futex_executed [of es "In_set Set_assert" ev] show ?thesis
      by (simp add: set_futex_pcs_def)
  next
    case False
    with r set_fallback_executed [of es "In_set Set_assert" ev] show ?thesis
      by (simp add: set_fallback_all_def)
  qed
next
  show "step hf (In_set Set_xchg, ev) =
     (if ev_value ev = EV_BUSY then In_set Set_wake_all else Returned, ev\<lparr>ev_value := EV_SET\<rparr>)"
    by (rule set_writes)
  show "step hf (In_set Set_store, ev) = (In_set Set_broadcast, ev\<lparr>ev_value := EV_SET\<rparr>)"
    by (rule set_writes)
  show "s = Set_xchg \<or> s = Set_store \<or> snd (step hf (In_set s, ev)) = ev"
    by (rule set_other_statements)
next
  assume "initialized ev \<and> ev_value ev = EV_SET"
  then show "call hf (In_set Set_assert) ev = (Returned, ev)"
    by (simp add: call_set_SET)
next
  assume "initialized ev \<and> ev_value ev = EV_SET"
  then show "list_ex invokes_wake_all (own_steps hf (alone 5) (In_set Set_assert, ev)) = (\<not> hf)"
    by (simp add: own_steps_set_SET)
qed

theorem set_wakes_futex_iff_replaced_BUSY_witness:
  "fst (run True (alone 5) (In_set Set_assert, free_event\<lparr>ev_value := EV_BUSY\<rparr>)) = Returned \<and>
   list_ex invokes_wake_all
     (own_steps True (alone 5) (In_set Set_assert, free_event\<lparr>ev_value := EV_BUSY\<rparr>)) \<and>
   executed True (alone 5) (In_set Set_assert, free_event\<lparr>ev_value := EV_BUSY\<rparr>) =
     [In_set Set_assert, In_set Set_read, In_set Set_xchg, In_set Set_wake_all] \<and>
   fst (run True (alone 5) (In_set Set_assert, free_event)) = Returned \<and>
   \<not> list_ex invokes_wake_all (own_steps True (alone 5) (In_set Set_assert, free_event)) \<and>
   executed True (alone 5) (In_set Set_assert, free_event) =
     [In_set Set_assert, In_set Set_read, In_set Set_xchg] \<and>
   fst (run False (alone 5) (In_set Set_assert, free_event)) = Returned \<and>
   executed False (alone 5) (In_set Set_assert, free_event) =
     [In_set Set_assert, In_set Set_lock, In_set Set_store, In_set Set_broadcast, In_set Set_unlock] \<and>
   initialized set_event \<and> ev_value set_event = EV_SET \<and>
   call True (In_set Set_assert) set_event = (Returned, set_event) \<and>
   \<not> list_ex invokes_wake_all (own_steps True (alone 5) (In_set Set_assert, set_event)) \<and>
   executed True (alone 5) (In_set Set_assert, set_event) = [In_set Set_assert, In_set Set_read]"
proof -
  have busy:
    "fst (run True (alone 5) (In_set Set_assert, free_event\<lparr>ev_value := EV_BUSY\<rparr>)) = Returned"
    by (simp add: alone_5 free_event_def atomics ev_distinct)
  have busy_replaced: "list_ex replaces_BUSY
     (own_steps True (alone 5) (In_set Set_assert, free_event\<lparr>ev_value := EV_BUSY\<rparr>))"
    by (simp add: alone_5 free_event_def atomics ev_distinct replaces_BUSY_pair)
  have busy_read: "\<not> list_ex reads_SET
     (own_steps True (alone 5) (In_set Set_assert, free_event\<lparr>ev_value := EV_BUSY\<rparr>))"
    by (simp add: alone_5 free_event_def atomics ev_distinct reads_SET_pair)
  have free: "fst (run True (alone 5) (In_set Set_assert, free_event)) = Returned"
    by (simp add: alone_5 free_event_def atomics ev_distinct)
  have free_kept:
    "\<not> list_ex replaces_BUSY (own_steps True (alone 5) (In_set Set_assert, free_event))"
    by (simp add: alone_5 free_event_def atomics ev_distinct replaces_BUSY_pair)
  have free_read:
    "\<not> list_ex reads_SET (own_steps True (alone 5) (In_set Set_assert, free_event))"
    by (simp add: alone_5 free_event_def atomics ev_distinct reads_SET_pair)
  have fallback: "fst (run False (alone 5) (In_set Set_assert, free_event)) = Returned"
    by (simp add: alone_5 free_event_def atomics ev_distinct)
  have set: "initialized set_event \<and> ev_value set_event = EV_SET"
    by (simp add: set_event_def)
  have set_read: "list_ex reads_SET (own_steps True (alone 5) (In_set Set_assert, set_event))"
    by (simp add: alone_5 set_event_def atomics ev_distinct reads_SET_pair)
  from busy busy_replaced busy_read
    set_wakes_futex_iff_replaced_BUSY [of True "alone 5" "free_event\<lparr>ev_value := EV_BUSY\<rparr>"]
  have 1: "list_ex invokes_wake_all
     (own_steps True (alone 5) (In_set Set_assert, free_event\<lparr>ev_value := EV_BUSY\<rparr>))"
    "executed True (alone 5) (In_set Set_assert, free_event\<lparr>ev_value := EV_BUSY\<rparr>) =
     [In_set Set_assert, In_set Set_read, In_set Set_xchg, In_set Set_wake_all]"
    by simp_all
  from free free_kept free_read set_wakes_futex_iff_replaced_BUSY [of True "alone 5" free_event]
  have 2: "\<not> list_ex invokes_wake_all (own_steps True (alone 5) (In_set Set_assert, free_event))"
    "executed True (alone 5) (In_set Set_assert, free_event) =
     [In_set Set_assert, In_set Set_read, In_set Set_xchg]"
    by simp_all
  from fallback set_wakes_futex_iff_replaced_BUSY [of False "alone 5" free_event]
  have 3: "executed False (alone 5) (In_set Set_assert, free_event) =
     [In_set Set_assert, In_set Set_lock, In_set Set_store, In_set Set_broadcast, In_set Set_unlock]"
    by simp
  from set set_wakes_futex_iff_replaced_BUSY [of True "alone 5" set_event]
  have 4: "call True (In_set Set_assert) set_event = (Returned, set_event)"
    "\<not> list_ex invokes_wake_all (own_steps True (alone 5) (In_set Set_assert, set_event))"
    by simp_all
  have ret: "fst (run True (alone 5) (In_set Set_assert, set_event)) = Returned"
    using 4(1) by (simp add: call_def)
  from ret set_read set_wakes_futex_iff_replaced_BUSY [of True "alone 5" set_event]
  have 5: "executed True (alone 5) (In_set Set_assert, set_event) = [In_set Set_assert, In_set Set_read]"
    by simp
  show ?thesis
    by (intro conjI busy 1 free 2 fallback 3 4 5 conjunct1 [OF set] conjunct2 [OF set])
qed

section \<open>What a returning wait has seen\<close>

lemma wakeup_wait_futex: "p \<in> wait_futex_pcs \<Longrightarrow> wakeup p \<in> wait_futex_pcs"
  by (auto simp add: wait_futex_pcs_def)

lemma step_wait_futex:
  "p \<in> wait_futex_pcs \<Longrightarrow>
   fst (step True (p, ev)) \<in> wait_futex_pcs \<or> fst (step True (p, ev)) = Aborted \<or>
   (fst (step True (p, ev)) = Returned \<and> observes_SET (p, ev))"
proof -
  assume "p \<in> wait_futex_pcs"
  then consider "p = In_wait Wait_assert" | "p = In_wait Wait_load" | "p = In_wait Wait_cmpxchg"
    | "p = In_wait Wait_futex_wait" | "p = In_wait Wait_futex_asleep"
    by (auto simp add: wait_futex_pcs_def)
  then show ?thesis
    by cases (simp_all add: wait_futex_pcs_def observes_SET_def atomics Let_def)
qed

text \<open>
  With \<^verbatim>\<open>HAVE_FUTEX\<close> the loop does what claim C2 says: among any other threads and after
  any wake-ups, a call of \<^verbatim>\<open>qemu_event_wait\<close> that returns has read \<^verbatim>\<open>EV_SET\<close>, at the load
  of line 108 or at the compare-and-swap of line 125.
\<close>

lemma wait_futex_observes_SET:
  "fst (run True es (p, ev)) = Returned \<Longrightarrow> p \<in> wait_futex_pcs \<Longrightarrow>
   list_ex observes_SET (own_steps True es (p, ev))"
proof (induction es arbitrary: p ev)
  case Nil
  then show ?case by (auto simp add: wait_futex_pcs_def)
next
  case (Cons e es)
  show ?case
  proof (cases e)
    case Self
    obtain p' ev' where st: "step True (p, ev) = (p', ev')"
      by (cases "step True (p, ev)")
    from step_wait_futex [OF Cons.prems(2), of ev] st
    consider "p' \<in> wait_futex_pcs" | "p' = Aborted" | "observes_SET (p, ev)"
      by auto
    then show ?thesis
    proof cases
      case 1
      with Self st Cons.prems Cons.IH [of p' ev'] show ?thesis by simp
    next
      case 2
      with Self st Cons.prems show ?thesis by (simp add: run_Aborted)
    next
      case 3
      with Self show ?thesis by simp
    qed
  next
    case (Other q)
    with Cons.prems Cons.IH [of p "snd (step True (q, ev))"] show ?thesis by simp
  next
    case Wakeup
    with Cons.prems Cons.IH [of "wakeup p" ev] wakeup_wait_futex [of p] show ?thesis by simp
  qed
qed

text \<open>
  Claim C2 fails without \<^verbatim>\<open>HAVE_FUTEX\<close>, where line 139 is an \<^verbatim>\<open>if\<close> and not a loop. On an
  initialized event whose state is \<^verbatim>\<open>EV_FREE\<close> the waiter asserts, locks, reads
  \<^verbatim>\<open>EV_FREE\<close> and sleeps in \<^verbatim>\<open>pthread_cond_wait\<close>; woken while the state is still
  \<^verbatim>\<open>EV_FREE\<close>, it unlocks and returns. It has never read \<^verbatim>\<open>EV_SET\<close>, and it has not
  read the state again after the wake-up. The same happens with no spurious wake-up, when
  another thread's \<^verbatim>\<open>qemu_event_set\<close> (store, broadcast, unlock) is followed by a third
  thread's \<^verbatim>\<open>qemu_event_reset\<close> before the waiter runs.
\<close>

theorem wait_fallback_returns_without_SET:
  "initialized free_event \<and> ev_value free_event = EV_FREE \<and>
   run False [Self, Self, Self] (In_wait Wait_assert, free_event) =
     (In_wait Wait_cond_wait, free_event) \<and>
   run False [Self, Self, Self, Wakeup, Self] (In_wait Wait_assert, free_event) =
     (Returned, free_event) \<and>
   \<not> list_ex observes_SET
       (own_steps False [Self, Self, Self, Wakeup, Self] (In_wait Wait_assert, free_event)) \<and>
   run False
     [Self, Self, Self, Other (In_set Set_store), Other (In_set Set_broadcast),
      Other (In_set Set_unlock), Other (In_reset Reset_or), Wakeup, Self]
     (In_wait Wait_assert, free_event) = (Returned, free_event) \<and>
   \<not> list_ex observes_SET
       (own_steps False
          [Self, Self, Self, Other (In_set Set_store), Other (In_set Set_broadcast),
           Other (In_set Set_unlock), Other (In_reset Reset_or), Wakeup, Self]
          (In_wait Wait_assert, free_event))"
  by (simp add: free_event_def atomics observes_SET_def ev_distinct or_free)

section \<open>No missed wake-up\<close>

subsection \<open>A reset after the set\<close>










subsection \<open>While the event stays set\<close>
























end
